theory Spec2Isabelle
  imports Main "HOL-Library.Sublist" "HOL-Library.Multiset"
begin

section \<open>mo-dump: the dump serialization engine of cmd/mo-dump/main.go\<close>

text \<open>
  Go strings and byte slices are modelled as \<open>string\<close> (a list of 8-bit \<open>char\<close>s, one
  per byte). A \<open>sql.RawBytes\<close> value that may be \<open>nil\<close> is a \<open>string option\<close>.
  A runtime panic and an error return are values of the type \<open>error\<close>.
\<close>

subsection \<open>Errors\<close>

datatype error =
    InvalidInput string
  | NotSupported string
  | IndexOutOfRange nat nat
  | NegativeCount
  | ScanError string

subsection \<open>Bytes and the functions of package strings that the code calls\<close>

abbreviation bslash :: char where "bslash \<equiv> CHR 0x5C"
abbreviation squote :: char where "squote \<equiv> CHR 0x27"

definition isDigit :: "char \<Rightarrow> bool" where
  "isDigit c = (0x30 \<le> (of_char c :: nat) \<and> (of_char c :: nat) \<le> 0x39)"

text \<open>
  \<open>strings.ToLower\<close> on the column type names: the driver's type names are ASCII, and
  the model lowers the ASCII letters and leaves every other byte as it is.
\<close>

definition lowerByte :: "char \<Rightarrow> char" where
  "lowerByte c =
     (if 0x41 \<le> (of_char c :: nat) \<and> (of_char c :: nat) \<le> 0x5A
      then char_of ((of_char c :: nat) + 0x20) else c)"

definition strings_ToLower :: "string \<Rightarrow> string" where
  "strings_ToLower s = map lowerByte s"

text \<open>
  \<open>strings.Replace(s, old, new, -1)\<close> for a non-empty \<open>old\<close> (both call sites pass a
  one-byte \<open>old\<close>): the non-overlapping occurrences are replaced from left to right.
\<close>

function strings_Replace :: "string \<Rightarrow> string \<Rightarrow> string \<Rightarrow> string" where
  "strings_Replace [] old new = []"
| "strings_Replace (c # cs) old new =
     (if old \<noteq> [] \<and> prefix old (c # cs)
      then new @ strings_Replace (drop (length old) (c # cs)) old new
      else c # strings_Replace cs old new)"
  by pat_completeness auto
termination
  by (relation "measure (\<lambda>(s, old, new). length s)") (auto simp: neq_Nil_conv)

text \<open>
  \<open>strings.Count(s, substr) > 0\<close>: \<open>substr\<close> occurs in \<open>s\<close>. For the empty
  \<open>substr\<close> Go counts one more than the runes of \<open>s\<close>, which is positive.
\<close>

fun contains :: "string \<Rightarrow> string \<Rightarrow> bool" where
  "contains [] sub = (sub = [])"
| "contains (c # cs) sub = (prefix sub (c # cs) \<or> contains cs sub)"

subsection \<open>UTF-8, as \<open>range\<close> over a string and \<open>WriteRune\<close> read and write it\<close>

text \<open>
  A rune is a \<open>nat\<close>. \<open>decodeRune\<close> is \<open>utf8.DecodeRuneInString\<close>: the rune at the
  head of a non-empty string and its width; an ill-formed or truncated sequence is
  \<open>RuneError\<close> of width 1. \<open>appendRune\<close> is the encoder behind
  \<open>strings.Builder.WriteRune\<close>.
\<close>

definition RuneError :: nat where
  "RuneError = 0xFFFD"

definition contByte :: "nat \<Rightarrow> bool" where
  "contByte x = (0x80 \<le> x \<and> x \<le> 0xBF)"

text \<open>The accepted range of the second byte, by the first byte (Go's \<open>acceptRanges\<close>).\<close>

definition acceptLo :: "nat \<Rightarrow> nat" where
  "acceptLo x0 = (if x0 = 0xE0 then 0xA0 else if x0 = 0xF0 then 0x90 else 0x80)"

definition acceptHi :: "nat \<Rightarrow> nat" where
  "acceptHi x0 = (if x0 = 0xED then 0x9F else if x0 = 0xF4 then 0x8F else 0xBF)"

text \<open>The width announced by the first byte; 0 for a byte that starts no sequence.\<close>

definition seqLen :: "nat \<Rightarrow> nat" where
  "seqLen x0 =
     (if 0xC2 \<le> x0 \<and> x0 \<le> 0xDF then 2
      else if 0xE0 \<le> x0 \<and> x0 \<le> 0xEF then 3
      else if 0xF0 \<le> x0 \<and> x0 \<le> 0xF4 then 4
      else 0)"

fun decodeRune :: "string \<Rightarrow> nat \<times> nat" where
  "decodeRune [] = (RuneError, 0)"
| "decodeRune (b0 # bs) =
     (let x0 = (of_char b0 :: nat); sz = seqLen x0 in
      if x0 < 0x80 then (x0, 1)
      else if sz = 0 then (RuneError, 1)
      else if length (b0 # bs) < sz then (RuneError, 1)
      else
        let x1 = (of_char (bs ! 0) :: nat) in
        if x1 < acceptLo x0 \<or> acceptHi x0 < x1 then (RuneError, 1)
        else if sz \<le> 2 then ((x0 mod 32) * 64 + x1 mod 64, 2)
        else
          let x2 = (of_char (bs ! 1) :: nat) in
          if \<not> contByte x2 then (RuneError, 1)
          else if sz \<le> 3 then ((x0 mod 16) * 4096 + (x1 mod 64) * 64 + x2 mod 64, 3)
          else
            let x3 = (of_char (bs ! 2) :: nat) in
            if \<not> contByte x3 then (RuneError, 1)
            else ((x0 mod 8) * 262144 + (x1 mod 64) * 4096 + (x2 mod 64) * 64 + x3 mod 64, 4))"

function appendRune :: "nat \<Rightarrow> string" where
  "appendRune r =
     (if r \<le> 0x7F then [char_of r]
      else if r \<le> 0x7FF then [char_of (0xC0 + r div 64), char_of (0x80 + r mod 64)]
      else if r > 0x10FFFF \<or> (0xD800 \<le> r \<and> r \<le> 0xDFFF) then appendRune RuneError
      else if r \<le> 0xFFFF then
        [char_of (0xE0 + r div 4096), char_of (0x80 + (r div 64) mod 64),
         char_of (0x80 + r mod 64)]
      else
        [char_of (0xF0 + r div 262144), char_of (0x80 + (r div 4096) mod 64),
         char_of (0x80 + (r div 64) mod 64), char_of (0x80 + r mod 64)])"
  by pat_completeness auto
termination
  by (relation "measure (\<lambda>r. if r = RuneError then 0 else 1)") (auto simp: RuneError_def)

declare appendRune.simps [simp del]

text \<open>\<open>utf8.ValidString\<close>: every sequence decodes, none to \<open>RuneError\<close> of width 1.\<close>

lemma decodeRune_width: "decodeRune (b # bs) = (r, w) \<Longrightarrow> 0 < w \<and> w \<le> 4"
  by (auto simp: Let_def split: if_splits)

lemma decodeRune_drop: "(r, w) = decodeRune (b # bs) \<Longrightarrow> length (drop w (b # bs)) < Suc (length bs)"
  using decodeRune_width [of b bs r w] by simp

declare decodeRune.simps [simp del]

function validString :: "string \<Rightarrow> bool" where
  "validString [] = True"
| "validString (b # bs) =
     (case decodeRune (b # bs) of (r, w) \<Rightarrow>
        if r = RuneError \<and> w = 1 then False else validString (drop w (b # bs)))"
  by pat_completeness auto
termination
  by (relation "measure length") (simp_all del: length_drop add: decodeRune_drop)

subsection \<open>escapeString\<close>

text \<open>
  The loop \<open>for _, char := range s\<close> of \<open>escapeString\<close>: one rune per iteration, a
  backslash written before a backslash rune, then the rune itself by \<open>WriteRune\<close>.
\<close>

function escapeRunes :: "string \<Rightarrow> string" where
  "escapeRunes [] = []"
| "escapeRunes (b # bs) =
     (case decodeRune (b # bs) of (r, w) \<Rightarrow>
        (if r = of_char bslash then [bslash] else []) @ appendRune r @
        escapeRunes (drop w (b # bs)))"
  by pat_completeness auto
termination
  by (relation "measure length") (simp_all del: length_drop add: decodeRune_drop)

definition escapeString :: "string \<Rightarrow> string" where
  "escapeString s = (if s = [bslash, CHR ''N''] then s else escapeRunes s)"

subsection \<open>convertValue\<close>

definition quoteLiteral :: "string \<Rightarrow> string" where
  "quoteLiteral s =
     [squote] @ strings_Replace (strings_Replace s [bslash] [bslash, bslash])
                  [squote] [bslash, squote] @ [squote]"

text \<open>
  The \<open>float\<close> case reads \<open>retStr[0]\<close> and, behind \<open>retStr[0] == '-'\<close>,
  \<open>retStr[1]\<close>, with no check of the length: an index past the end panics.
\<close>

definition floatLiteral :: "string \<Rightarrow> error + string" where
  "floatLiteral retStr =
     (case retStr of
        [] \<Rightarrow> Inl (IndexOutOfRange 0 0)
      | c0 # rest \<Rightarrow>
          if isDigit c0 then Inr retStr
          else if c0 = CHR ''-'' then
            (case rest of
               [] \<Rightarrow> Inl (IndexOutOfRange 1 1)
             | c1 # _ \<Rightarrow> if isDigit c1 then Inr retStr else Inr ([squote] @ retStr @ [squote]))
          else Inr ([squote] @ retStr @ [squote]))"

definition bitLiteral :: "string \<Rightarrow> string" where
  "bitLiteral ret =
     ''_binary '' @ [squote] @
     concat (map (\<lambda>b. if b = CHR 0x00 then [bslash, CHR ''0''] else [b]) ret) @ [squote]"

definition plainTypes :: "string list" where
  "plainTypes =
     [''int'', ''tinyint'', ''smallint'', ''bigint'', ''unsigned bigint'', ''unsigned int'',
      ''unsigned tinyint'', ''unsigned smallint'', ''double'', ''bool'', ''boolean'']"

definition convertValue :: "string option \<Rightarrow> string \<Rightarrow> error + string" where
  "convertValue v typ0 =
     (case v of
        None \<Rightarrow> Inr ''NULL''
      | Some ret \<Rightarrow>
          let typ = strings_ToLower typ0 in
          if typ = [] then
            (if ret = ''true'' \<or> ret = ''false'' then Inr ret else Inr (quoteLiteral ret))
          else if typ = ''varchar'' \<and> (ret = ''true'' \<or> ret = ''false'') then Inr ret
          else if typ = ''float'' then floatLiteral ret
          else if typ \<in> set plainTypes then Inr ret
          else if typ = ''vecf32'' \<or> typ = ''vecf64'' then Inr ret
          else if typ = ''bit'' then Inr (bitLiteral ret)
          else Inr (quoteLiteral ret))"

subsection \<open>Table descriptors\<close>

text \<open>
  \<open>Table.Kind\<close> is compared with the catalog's constants \<open>SystemOrdinaryRel\<close>,
  \<open>SystemExternalRel\<close> and \<open>SystemViewRel\<close>; any other string is \<open>OtherRel\<close>.
\<close>

datatype kind = SystemOrdinaryRel | SystemExternalRel | SystemViewRel | OtherRel string

record Table =
  Name :: string
  Kind :: kind

type_synonym Tables = "Table list"

subsection \<open>dumpData: the scan that moves the views behind the tables\<close>

text \<open>
  \<open>createTable\<close> and \<open>opt.tables\<close> are parallel slices of one length
  (\<open>createTable\<close> is made with \<open>len(opt.tables)\<close>). The two inner loops of the scan
  are \<open>scanLeft\<close> and \<open>scanRight\<close>; \<open>right\<close> can reach \<open>-1\<close> and is an \<open>int\<close>.
\<close>

function scanLeft :: "Tables \<Rightarrow> nat \<Rightarrow> nat" where
  "scanLeft tables left =
     (if left < length tables \<and> Kind (tables ! left) \<noteq> SystemViewRel
      then scanLeft tables (left + 1) else left)"
  by pat_completeness auto
termination
  by (relation "measure (\<lambda>(tables, left). length tables - left)") auto

function scanRight :: "Tables \<Rightarrow> int \<Rightarrow> int" where
  "scanRight tables right =
     (if right \<ge> 0 \<and> Kind (tables ! nat right) = SystemViewRel
      then scanRight tables (right - 1) else right)"
  by pat_completeness auto
termination
  by (relation "measure (\<lambda>(tables, right). nat (right + 1))") auto

declare scanLeft.simps [simp del] scanRight.simps [simp del]

definition swap :: "nat \<Rightarrow> nat \<Rightarrow> 'a list \<Rightarrow> 'a list" where
  "swap i j xs = xs[i := xs ! j, j := xs ! i]"

text \<open>
  The outer loop \<open>for left < right\<close>. It is entered with \<open>right = len - 1\<close>; that it
  returns is proved below, not assumed.
\<close>

partial_function (option) partitionLoop ::
  "nat \<Rightarrow> int \<Rightarrow> string list \<Rightarrow> Tables \<Rightarrow> (nat \<times> string list \<times> Tables) option" where
  "partitionLoop left right createTable tables =
     (if int left < right then
        (let left' = scanLeft tables left; right' = scanRight tables right in
         if int left' \<ge> right' then Some (left', createTable, tables)
         else partitionLoop left' right'
                (swap left' (nat right') createTable) (swap left' (nat right') tables))
      else Some (left, createTable, tables))"

declare partitionLoop.simps [code]

definition partitionViews ::
  "string list \<Rightarrow> Tables \<Rightarrow> (nat \<times> string list \<times> Tables) option" where
  "partitionViews createTable tables =
     partitionLoop 0 (int (length createTable) - 1) createTable tables"

subsection \<open>adjustViewOrder\<close>

text \<open>
  \<open>viewPos\<close> maps a view name to its position behind \<open>start\<close>; a name met twice keeps
  the later position. A lookup of a missing key gives Go's zero value.
\<close>

definition viewPosOf :: "Tables \<Rightarrow> nat \<Rightarrow> (string \<rightharpoonup> nat)" where
  "viewPosOf tables start =
     fold (\<lambda>i m. m(Name (tables ! i) \<mapsto> i - start)) [start..<length tables] Map.empty"

definition lookupPos :: "(string \<rightharpoonup> nat) \<Rightarrow> string \<Rightarrow> nat" where
  "lookupPos m k = (case m k of None \<Rightarrow> 0 | Some p \<Rightarrow> p)"

text \<open>The body of the two nested loops that count the references and record them.\<close>

definition refStep ::
  "string list \<Rightarrow> Tables \<Rightarrow> (string \<rightharpoonup> nat) \<Rightarrow> nat \<Rightarrow> nat \<Rightarrow>
   int list \<times> nat list list \<Rightarrow> int list \<times> nat list list" where
  "refStep createTable tables viewPos i j g =
     (case g of (viewCount, viewRef) \<Rightarrow>
        if i = j then g
        else if contains (createTable ! i) (Name (tables ! j)) then
          (let pi = lookupPos viewPos (Name (tables ! i));
               pj = lookupPos viewPos (Name (tables ! j))
           in (viewCount[pi := viewCount ! pi + 1], viewRef[pj := viewRef ! pj @ [pi]]))
        else g)"

definition buildRefs ::
  "string list \<Rightarrow> Tables \<Rightarrow> nat \<Rightarrow> int list \<times> nat list list" where
  "buildRefs createTable tables start =
     (let cnt = length tables; n = cnt - start; viewPos = viewPosOf tables start in
      fold (\<lambda>i g. fold (\<lambda>j g'. refStep createTable tables viewPos i j g') [start..<cnt] g)
        [start..<cnt] (replicate n 0, replicate n []))"

record order_state =
  viewCount :: "int list"
  visit :: "bool list"
  order :: nat
  orderArr :: "nat list"

text \<open>One iteration of the inner loop \<open>for i := 0; i < len(viewName); i++\<close>.\<close>

definition visitStep :: "nat list list \<Rightarrow> nat \<Rightarrow> order_state \<Rightarrow> order_state" where
  "visitStep viewRef i st =
     (if viewCount st ! i = 0 \<and> \<not> visit st ! i then
        st\<lparr>visit := (visit st)[i := True],
           order := order st + 1,
           orderArr := orderArr st @ [i],
           viewCount := fold (\<lambda>k vc. vc[k := vc ! k - 1]) (viewRef ! i) (viewCount st)\<rparr>
      else st)"

definition scanPass :: "nat \<Rightarrow> nat list list \<Rightarrow> order_state \<Rightarrow> order_state" where
  "scanPass n viewRef st = fold (visitStep viewRef) [0..<n] st"

text \<open>
  The outer loop \<open>for order < len(viewName)\<close> has no other exit: a pass that visits
  nothing is followed by the same pass again. \<open>None\<close> is the loop that never ends.
\<close>

partial_function (option) orderLoop ::
  "nat \<Rightarrow> nat list list \<Rightarrow> order_state \<Rightarrow> order_state option" where
  "orderLoop n viewRef st =
     (if order st < n then orderLoop n viewRef (scanPass n viewRef st) else Some st)"

declare orderLoop.simps [code]

text \<open>\<open>copy(dst, src)\<close> overwrites the first \<open>min(len(dst), len(src))\<close> elements.\<close>

definition copy :: "'a list \<Rightarrow> 'a list \<Rightarrow> 'a list" where
  "copy dst src = take (min (length dst) (length src)) src @ drop (min (length dst) (length src)) dst"

definition emptyTable :: Table where
  "emptyTable = \<lparr>Name = [], Kind = OtherRel []\<rparr>"

definition adjustViewOrder ::
  "string list \<Rightarrow> Tables \<Rightarrow> nat \<Rightarrow> (string list \<times> Tables) option" where
  "adjustViewOrder createTable tables start =
     (let cnt = length tables; n = cnt - start;
          (viewCount0, viewRef) = buildRefs createTable tables start
      in case orderLoop n viewRef
                \<lparr>viewCount = viewCount0, visit = replicate n False, order = 0, orderArr = []\<rparr> of
           None \<Rightarrow> None
         | Some st \<Rightarrow>
             (let newCreate = map (\<lambda>k. createTable ! (k + start)) (orderArr st)
                                @ replicate (cnt - length (orderArr st)) [];
                  newTables = map (\<lambda>k. tables ! (k + start)) (orderArr st)
                                @ replicate (cnt - length (orderArr st)) emptyTable
              in Some (take start createTable @ copy (drop start createTable) newCreate,
                       take start tables @ copy (drop start tables) newTables)))"

text \<open>Lines 277 to 291 of \<open>dumpData\<close>: the scan, then \<open>adjustViewOrder\<close> from \<open>left\<close>.\<close>

definition orderStatements :: "string list \<Rightarrow> Tables \<Rightarrow> (string list \<times> Tables) option" where
  "orderStatements createTable tables =
     (case partitionViews createTable tables of
        None \<Rightarrow> None
      | Some (left, createTable', tables') \<Rightarrow> adjustViewOrder createTable' tables' left)"


subsection \<open>Reversing the escape rules\<close>

text \<open>
  The decoders of the specification's round-trip property, written from its words:
  \<open>undoubleBackslash\<close> undoes the backslash-doubling of a CSV field;
  \<open>decodeLiteral\<close> strips the enclosing quotes of a SQL string literal and undoes the
  backslash-doubling and the quote-escaping. \<open>doubleBackslash\<close> and \<open>escapeByte\<close> are
  the escape rules byte by byte.
\<close>

definition doubleBackslash :: "string \<Rightarrow> string" where
  "doubleBackslash s = concat (map (\<lambda>c. if c = bslash then [bslash, bslash] else [c]) s)"

fun undoubleBackslash :: "string \<Rightarrow> string" where
  "undoubleBackslash (b # c # cs) =
     (if b = bslash \<and> c = bslash then bslash # undoubleBackslash cs
      else b # undoubleBackslash (c # cs))"
| "undoubleBackslash cs = cs"

definition escapeByte :: "char \<Rightarrow> string" where
  "escapeByte c = (if c = bslash then [bslash, bslash] else if c = squote then [bslash, squote] else [c])"

definition stripQuotes :: "string \<Rightarrow> string option" where
  "stripQuotes s =
     (case s of
        [] \<Rightarrow> None
      | q # rest \<Rightarrow>
          if q = squote \<and> rest \<noteq> [] \<and> last rest = squote then Some (butlast rest) else None)"

fun unescapeLiteral :: "string \<Rightarrow> string" where
  "unescapeLiteral (b # c # cs) =
     (if b = bslash \<and> (c = bslash \<or> c = squote) then c # unescapeLiteral cs
      else b # unescapeLiteral (c # cs))"
| "unescapeLiteral cs = cs"

definition decodeLiteral :: "string \<Rightarrow> string option" where
  "decodeLiteral s = map_option unescapeLiteral (stripQuotes s)"



lemma char_of_nat_eq: "char_of (n::nat) = c \<longleftrightarrow> n mod 256 = of_char c"
  by (simp add: char_of_eq_iff take_bit_eq_mod)

lemma mod_offset: "k mod m = 0 \<Longrightarrow> a < m \<Longrightarrow> (k + a) mod m = (a::nat)"
  by (metis add_0 mod_add_left_eq mod_less)

lemma divmod_step: "d < m \<Longrightarrow> r = n * m + d \<Longrightarrow> r div m = n \<and> r mod m = (d::nat)"
  by simp

lemma enc2:
  fixes a c :: nat
  assumes "a < 32" "c < 64"
  defines "r \<equiv> ((192 + a) mod 32) * 64 + (128 + c) mod 64"
  shows "r = a * 64 + c" "r div 64 = a" "r mod 64 = c"
proof -
  have "(192 + a) mod 32 = a" using assms(1) by (simp add: mod_offset)
  moreover have "(128 + c) mod 64 = c" using assms(2) by (simp add: mod_offset)
  ultimately show r: "r = a * 64 + c" by (simp add: r_def)
  show "r div 64 = a" "r mod 64 = c" using divmod_step [OF assms(2) r] by blast+
qed

lemma enc3:
  fixes a c d :: nat
  assumes "a < 16" "c < 64" "d < 64"
  defines "r \<equiv> ((224 + a) mod 16) * 4096 + ((128 + c) mod 64) * 64 + (128 + d) mod 64"
  shows "r = a * 4096 + c * 64 + d" "r div 4096 = a" "(r div 64) mod 64 = c" "r mod 64 = d"
proof -
  have "(224 + a) mod 16 = a" using assms(1) by (simp add: mod_offset)
  moreover have "(128 + c) mod 64 = c" using assms(2) by (simp add: mod_offset)
  moreover have "(128 + d) mod 64 = d" using assms(3) by (simp add: mod_offset)
  ultimately show r: "r = a * 4096 + c * 64 + d" by (simp add: r_def)
  have r': "r = (a * 64 + c) * 64 + d" by (simp add: r algebra_simps)
  have q: "r div 64 = a * 64 + c" and "r mod 64 = d"
    using divmod_step [OF assms(3) r'] by blast+
  then show "r mod 64 = d" by simp
  show "(r div 64) mod 64 = c" using divmod_step [OF assms(2) q] by blast
  have "c * 64 + d < 4096" using assms by simp
  moreover have "r = a * 4096 + (c * 64 + d)" by (simp add: r)
  ultimately show "r div 4096 = a" using divmod_step by blast
qed

lemma enc4:
  fixes a c d e :: nat
  assumes "a < 8" "c < 64" "d < 64" "e < 64"
  defines "r \<equiv> ((240 + a) mod 8) * 262144 + ((128 + c) mod 64) * 4096
                + ((128 + d) mod 64) * 64 + (128 + e) mod 64"
  shows "r = a * 262144 + c * 4096 + d * 64 + e" "r div 262144 = a"
    "(r div 4096) mod 64 = c" "(r div 64) mod 64 = d" "r mod 64 = e"
proof -
  have "(240 + a) mod 8 = a" using assms(1) by (simp add: mod_offset)
  moreover have "(128 + c) mod 64 = c" using assms(2) by (simp add: mod_offset)
  moreover have "(128 + d) mod 64 = d" using assms(3) by (simp add: mod_offset)
  moreover have "(128 + e) mod 64 = e" using assms(4) by (simp add: mod_offset)
  ultimately show r: "r = a * 262144 + c * 4096 + d * 64 + e" by (simp add: r_def)
  have r1: "r = ((a * 64 + c) * 64 + d) * 64 + e" by (simp add: r algebra_simps)
  have q1: "r div 64 = ((a * 64 + c) * 64 + d)" and "r mod 64 = e"
    using divmod_step [OF assms(4) r1] by blast+
  then show "r mod 64 = e" by simp
  show "(r div 64) mod 64 = d" using divmod_step [OF assms(3) q1] by blast
  have r2: "r = (a * 64 + c) * 4096 + (d * 64 + e)" by (simp add: r algebra_simps)
  have "d * 64 + e < 4096" using assms by simp
  from divmod_step [OF this r2] have q2: "r div 4096 = a * 64 + c" by blast
  show "(r div 4096) mod 64 = c" using divmod_step [OF assms(2) q2] by blast
  have "c * 4096 + d * 64 + e < 262144" using assms by simp
  moreover have "r = a * 262144 + (c * 4096 + d * 64 + e)" by (simp add: r)
  ultimately show "r div 262144 = a" using divmod_step by blast
qed

lemma appendRune_1: "r \<le> 0x7F \<Longrightarrow> appendRune r = [char_of r]"
  by (simp add: appendRune.simps)

lemma appendRune_2: "0x7F < r \<Longrightarrow> r \<le> 0x7FF \<Longrightarrow>
    appendRune r = [char_of (0xC0 + r div 64), char_of (0x80 + r mod 64)]"
  by (simp add: appendRune.simps)

lemma appendRune_3: "0x7FF < r \<Longrightarrow> r \<le> 0xFFFF \<Longrightarrow> \<not> (0xD800 \<le> r \<and> r \<le> 0xDFFF) \<Longrightarrow>
    appendRune r = [char_of (0xE0 + r div 4096), char_of (0x80 + (r div 64) mod 64),
         char_of (0x80 + r mod 64)]"
  by (subst appendRune.simps) auto

lemma appendRune_4: "0xFFFF < r \<Longrightarrow> r \<le> 0x10FFFF \<Longrightarrow>
    appendRune r = [char_of (0xF0 + r div 262144), char_of (0x80 + (r div 4096) mod 64),
         char_of (0x80 + (r div 64) mod 64), char_of (0x80 + r mod 64)]"
  by (subst appendRune.simps) simp

lemma decode_width1:
  assumes "decodeRune (b # bs) = (r, w)" "(of_char b :: nat) < 0x80"
  shows "r = of_char b \<and> w = 1 \<and> appendRune r = [b]"
  using assms by (auto simp: decodeRune.simps Let_def appendRune_1)

lemma decode_invalid_start:
  assumes "decodeRune (b # bs) = (r, w)" "\<not> (of_char b :: nat) < 0x80" "seqLen (of_char b) = 0"
  shows "r = RuneError \<and> w = 1"
  using assms by (auto simp: decodeRune.simps Let_def)

lemma decode_width2:
  assumes d: "decodeRune (b # bs) = (r, w)" and s: "seqLen (of_char b) = 2"
    and ok: "\<not> (r = RuneError \<and> w = 1)"
  shows "w = 2 \<and> 0x7F < r \<and>
    (\<exists>b1 bs'. bs = b1 # bs' \<and> appendRune r = [b, b1] \<and> b1 \<noteq> bslash)"
proof -
  define x0 :: nat where "x0 = of_char b"
  have x0: "0xC2 \<le> x0" "x0 \<le> 0xDF"
    using s unfolding x0_def seqLen_def by (auto split: if_splits)
  then have n128: "\<not> x0 < 0x80" by simp
  have acc: "acceptLo x0 = 0x80" "acceptHi x0 = 0xBF"
    using x0 by (auto simp: acceptLo_def acceptHi_def)
  obtain b1 bs' where bs: "bs = b1 # bs'"
    using d ok s n128 unfolding x0_def by (cases bs) (auto simp: decodeRune.simps Let_def)
  define x1 :: nat where "x1 = of_char b1"
  have x1: "0x80 \<le> x1" "x1 \<le> 0xBF"
    using d ok s n128 acc unfolding x0_def x1_def bs
    by (auto simp: decodeRune.simps Let_def split: if_splits)
  have rw: "r = (x0 mod 32) * 64 + x1 mod 64" "w = 2"
    using d ok s n128 acc x1 unfolding x0_def x1_def bs
    by (auto simp: decodeRune.simps Let_def split: if_splits)
  obtain a where a: "x0 = 192 + a" "a < 32" "2 \<le> a"
    using x0 by (intro that [of "x0 - 192"]) auto
  obtain c where c: "x1 = 128 + c" "c < 64"
    using x1 by (intro that [of "x1 - 128"]) auto
  note e = enc2 [OF a(2) c(2)]
  have r: "r = a * 64 + c" using rw(1) e(1) by (simp add: a c)
  have "0x7F < r" "r \<le> 0x7FF" using a c by (simp_all add: r)
  moreover have "0xC0 + r div 64 = x0" "0x80 + r mod 64 = x1"
    using e(2,3) rw(1) by (simp_all add: a c)
  ultimately have "appendRune r = [char_of x0, char_of x1]"
    by (simp add: appendRune_2)
  moreover have "b1 \<noteq> bslash" using x1 unfolding x1_def by auto
  ultimately show ?thesis using rw \<open>0x7F < r\<close> bs by (simp add: x0_def x1_def)
qed


lemma decodeRune_short:
  assumes "\<not> (of_char b :: nat) < 0x80" "length (b # bs) < seqLen (of_char b)"
  shows "decodeRune (b # bs) = (RuneError, 1)"
  using assms by (simp add: decodeRune.simps Let_def)

lemma decodeRune3_eq:
  assumes "\<not> (of_char b :: nat) < 0x80" "seqLen (of_char b) = 3"
  shows "decodeRune (b # b1 # b2 # bs') =
    (if (of_char b1 :: nat) < acceptLo (of_char b) \<or> acceptHi (of_char b) < (of_char b1 :: nat)
     then (RuneError, 1)
     else if \<not> contByte (of_char b2) then (RuneError, 1)
     else (((of_char b :: nat) mod 16) * 4096 + ((of_char b1 :: nat) mod 64) * 64 + (of_char b2 :: nat) mod 64, 3))"
  using assms by (simp add: decodeRune.simps Let_def)

lemma decodeRune4_eq:
  assumes "\<not> (of_char b :: nat) < 0x80" "seqLen (of_char b) = 4"
  shows "decodeRune (b # b1 # b2 # b3 # bs') =
    (if (of_char b1 :: nat) < acceptLo (of_char b) \<or> acceptHi (of_char b) < (of_char b1 :: nat)
     then (RuneError, 1)
     else if \<not> contByte (of_char b2) then (RuneError, 1)
     else if \<not> contByte (of_char b3) then (RuneError, 1)
     else (((of_char b :: nat) mod 8) * 262144 + ((of_char b1 :: nat) mod 64) * 4096
           + ((of_char b2 :: nat) mod 64) * 64 + (of_char b3 :: nat) mod 64, 4))"
  using assms by (simp add: decodeRune.simps Let_def)

lemma decode_width3:
  assumes d: "decodeRune (b # bs) = (r, w)" and s: "seqLen (of_char b) = 3"
    and ok: "\<not> (r = RuneError \<and> w = 1)"
  shows "w = 3 \<and> 0x7F < r \<and>
    (\<exists>b1 b2 bs'. bs = b1 # b2 # bs' \<and> appendRune r = [b, b1, b2] \<and>
       b1 \<noteq> bslash \<and> b2 \<noteq> bslash)"
proof -
  define x0 :: nat where "x0 = of_char b"
  have x0: "0xE0 \<le> x0" "x0 \<le> 0xEF"
    using s unfolding x0_def seqLen_def by (auto split: if_splits)
  then have n128: "\<not> (of_char b :: nat) < 0x80" by (simp add: x0_def)
  have "\<not> length (b # bs) < 3"
    using decodeRune_short [OF n128, of bs] d ok s by auto
  then have "2 \<le> length bs" by simp
  then obtain b1 b2 bs' where bs: "bs = b1 # b2 # bs'"
    by (cases bs; cases "tl bs") auto
  define x1 :: nat where "x1 = of_char b1"
  define x2 :: nat where "x2 = of_char b2"
  note eq = d [unfolded bs decodeRune3_eq [OF n128 s], folded x0_def x1_def x2_def]
  have x1: "acceptLo x0 \<le> x1" "x1 \<le> acceptHi x0"
    using eq ok by (auto split: if_splits)
  have x2: "0x80 \<le> x2" "x2 \<le> 0xBF"
    using eq ok by (auto simp: contByte_def split: if_splits)
  have rw: "r = (x0 mod 16) * 4096 + (x1 mod 64) * 64 + x2 mod 64" "w = 3"
    using eq ok by (auto split: if_splits)
  obtain a where a: "x0 = 224 + a" "a < 16"
    using x0 by (intro that [of "x0 - 224"]) auto
  have x1': "0x80 \<le> x1" "x1 \<le> 0xBF"
    using x1 by (auto simp: acceptLo_def acceptHi_def split: if_splits)
  obtain c where c: "x1 = 128 + c" "c < 64"
    using x1' by (intro that [of "x1 - 128"]) auto
  obtain e where e: "x2 = 128 + e" "e < 64"
    using x2 by (intro that [of "x2 - 128"]) auto
  note f = enc3 [OF a(2) c(2) e(2)]
  have r: "r = a * 4096 + c * 64 + e" using rw(1) f(1) by (simp add: a c e)
  have lo: "a = 0 \<Longrightarrow> 32 \<le> c" using x1(1) by (simp add: acceptLo_def a c)
  have hi: "a = 13 \<Longrightarrow> c < 32" using x1(2) by (simp add: acceptHi_def a c)
  have 1: "0x7FF < r"
  proof (cases "a = 0")
    case True with lo show ?thesis by (simp add: r)
  next
    case False then show ?thesis by (simp add: r)
  qed
  have 2: "r \<le> 0xFFFF" using a(2) c(2) e(2) by (simp add: r)
  have 3: "\<not> (0xD800 \<le> r \<and> r \<le> 0xDFFF)"
  proof (cases "a = 13")
    case True with hi e(2) show ?thesis by (simp add: r)
  next
    case False
    then consider "a \<le> 12" | "14 \<le> a" by linarith
    then show ?thesis using c(2) e(2) by cases (simp_all add: r)
  qed
  have rr: "r = ((224 + a) mod 16) * 4096 + ((128 + c) mod 64) * 64 + (128 + e) mod 64"
    using r f(1) by simp
  have "r div 4096 = a" "(r div 64) mod 64 = c" "r mod 64 = e"
    using f(2,3,4) unfolding rr [symmetric] by blast+
  then have "0xE0 + r div 4096 = x0" "0x80 + (r div 64) mod 64 = x1" "0x80 + r mod 64 = x2"
    unfolding a c e by simp_all
  with 1 2 3 have "appendRune r = [char_of x0, char_of x1, char_of x2]"
    by (simp add: appendRune_3)
  moreover have "b1 \<noteq> bslash" using x1' unfolding x1_def by auto
  moreover have "b2 \<noteq> bslash" using x2 unfolding x2_def by auto
  ultimately show ?thesis using rw 1 bs by (simp add: x0_def x1_def x2_def)
qed

lemma decode_width4:
  assumes d: "decodeRune (b # bs) = (r, w)" and s: "seqLen (of_char b) = 4"
    and ok: "\<not> (r = RuneError \<and> w = 1)"
  shows "w = 4 \<and> 0x7F < r \<and>
    (\<exists>b1 b2 b3 bs'. bs = b1 # b2 # b3 # bs' \<and> appendRune r = [b, b1, b2, b3] \<and>
       b1 \<noteq> bslash \<and> b2 \<noteq> bslash \<and> b3 \<noteq> bslash)"
proof -
  define x0 :: nat where "x0 = of_char b"
  have x0: "0xF0 \<le> x0" "x0 \<le> 0xF4"
    using s unfolding x0_def seqLen_def by (auto split: if_splits)
  then have n128: "\<not> (of_char b :: nat) < 0x80" by (simp add: x0_def)
  have "\<not> length (b # bs) < 4"
    using decodeRune_short [OF n128, of bs] d ok s by auto
  then have "3 \<le> length bs" by simp
  then obtain b1 b2 b3 bs' where bs: "bs = b1 # b2 # b3 # bs'"
    by (cases bs; cases "tl bs"; cases "tl (tl bs)") auto
  define x1 :: nat where "x1 = of_char b1"
  define x2 :: nat where "x2 = of_char b2"
  define x3 :: nat where "x3 = of_char b3"
  note eq = d [unfolded bs decodeRune4_eq [OF n128 s], folded x0_def x1_def x2_def x3_def]
  have x1: "acceptLo x0 \<le> x1" "x1 \<le> acceptHi x0"
    using eq ok by (auto split: if_splits)
  have x2: "0x80 \<le> x2" "x2 \<le> 0xBF"
    using eq ok by (auto simp: contByte_def split: if_splits)
  have x3: "0x80 \<le> x3" "x3 \<le> 0xBF"
    using eq ok by (auto simp: contByte_def split: if_splits)
  have rw: "r = (x0 mod 8) * 262144 + (x1 mod 64) * 4096 + (x2 mod 64) * 64 + x3 mod 64" "w = 4"
    using eq ok by (auto split: if_splits)
  obtain a where a: "x0 = 240 + a" "a < 8" "a \<le> 4"
    using x0 by (intro that [of "x0 - 240"]) auto
  have x1': "0x80 \<le> x1" "x1 \<le> 0xBF"
    using x1 by (auto simp: acceptLo_def acceptHi_def split: if_splits)
  obtain c where c: "x1 = 128 + c" "c < 64"
    using x1' by (intro that [of "x1 - 128"]) auto
  obtain e where e: "x2 = 128 + e" "e < 64"
    using x2 by (intro that [of "x2 - 128"]) auto
  obtain g where g: "x3 = 128 + g" "g < 64"
    using x3 by (intro that [of "x3 - 128"]) auto
  note f = enc4 [OF a(2) c(2) e(2) g(2)]
  have r: "r = a * 262144 + c * 4096 + e * 64 + g" using rw(1) f(1) by (simp add: a c e g)
  have lo: "a = 0 \<Longrightarrow> 16 \<le> c" using x1(1) by (simp add: acceptLo_def a c)
  have hi: "a = 4 \<Longrightarrow> c < 16" using x1(2) by (simp add: acceptHi_def a c)
  have 1: "0xFFFF < r"
  proof (cases "a = 0")
    case True with lo show ?thesis by (simp add: r)
  next
    case False then show ?thesis by (simp add: r)
  qed
  have 2: "r \<le> 0x10FFFF"
  proof (cases "a = 4")
    case True with hi e(2) g(2) show ?thesis by (simp add: r)
  next
    case False
    with a(3) have "a \<le> 3" by simp
    then show ?thesis using c(2) e(2) g(2) by (simp add: r)
  qed
  have rr: "r = ((240 + a) mod 8) * 262144 + ((128 + c) mod 64) * 4096
                + ((128 + e) mod 64) * 64 + (128 + g) mod 64"
    using r f(1) by simp
  have "r div 262144 = a" "(r div 4096) mod 64 = c" "(r div 64) mod 64 = e" "r mod 64 = g"
    using f(2,3,4,5) unfolding rr [symmetric] by blast+
  then have "0xF0 + r div 262144 = x0" "0x80 + (r div 4096) mod 64 = x1"
       "0x80 + (r div 64) mod 64 = x2" "0x80 + r mod 64 = x3"
    unfolding a c e g by simp_all
  with 1 2 have "appendRune r = [char_of x0, char_of x1, char_of x2, char_of x3]"
    by (simp add: appendRune_4)
  moreover have "b1 \<noteq> bslash" using x1' unfolding x1_def by auto
  moreover have "b2 \<noteq> bslash" using x2 unfolding x2_def by auto
  moreover have "b3 \<noteq> bslash" using x3 unfolding x3_def by auto
  ultimately show ?thesis using rw 1 bs by (simp add: x0_def x1_def x2_def x3_def)
qed

lemma seqLen_cases: "seqLen x = 0 \<or> seqLen x = 2 \<or> seqLen x = 3 \<or> seqLen x = 4"
  by (simp add: seqLen_def)

text \<open>A well-formed sequence is written back byte for byte.\<close>

lemma decode_append:
  assumes d: "decodeRune (b # bs) = (r, w)" and ok: "\<not> (r = RuneError \<and> w = 1)"
  shows "appendRune r = take w (b # bs) \<and> w \<le> length (b # bs) \<and>
         (r = of_char bslash \<longleftrightarrow> b = bslash) \<and> (b = bslash \<longrightarrow> w = 1) \<and>
         bslash \<notin> set (tl (take w (b # bs)))"
proof (cases "(of_char b :: nat) < 0x80")
  case True
  from decode_width1 [OF d True]
  have *: "r = of_char b" "w = 1" "appendRune r = [b]" by auto
  have "(r = of_char bslash) = (b = bslash)" unfolding *(1) by (rule of_char_eq_iff)
  then show ?thesis using * by simp
next
  case False
  then have nb: "b \<noteq> bslash" by auto
  consider "seqLen (of_char b) = 0" | "seqLen (of_char b) = 2" | "seqLen (of_char b) = 3"
    | "seqLen (of_char b) = 4" using seqLen_cases [of "of_char b"] by auto
  then show ?thesis
  proof cases
    case 1
    with decode_invalid_start [OF d False] ok show ?thesis by simp
  next
    case 2
    from decode_width2 [OF d 2 ok] nb show ?thesis by auto
  next
    case 3
    from decode_width3 [OF d 3 ok] nb show ?thesis by auto
  next
    case 4
    from decode_width4 [OF d 4 ok] nb show ?thesis by auto
  qed
qed

lemma doubleBackslash_append: "doubleBackslash (xs @ ys) = doubleBackslash xs @ doubleBackslash ys"
  by (simp add: doubleBackslash_def)

lemma doubleBackslash_id: "bslash \<notin> set xs \<Longrightarrow> doubleBackslash xs = xs"
  by (induction xs) (auto simp: doubleBackslash_def)

lemma escapeRunes_valid: "validString s \<Longrightarrow> escapeRunes s = doubleBackslash s"
proof (induction s rule: validString.induct)
  case 1
  show ?case by (simp add: doubleBackslash_def)
next
  case (2 b bs)
  obtain r w where d: "decodeRune (b # bs) = (r, w)" by (cases "decodeRune (b # bs)")
  from "2.prems" d have ok: "\<not> (r = RuneError \<and> w = 1)" and v: "validString (drop w (b # bs))"
    by (auto split: if_splits)
  from "2.IH" [OF d [symmetric] ok v]
  have IH: "escapeRunes (drop w (b # bs)) = doubleBackslash (drop w (b # bs))" by simp
  note a = decode_append [OF d ok]
  from decodeRune_width [OF d] have w: "0 < w" by simp
  then have tk: "take w (b # bs) = b # tl (take w (b # bs))" by (cases w) simp_all
  have "doubleBackslash (take w (b # bs)) = (if b = bslash then [bslash] else []) @ take w (b # bs)"
  proof -
    have "doubleBackslash (take w (b # bs)) = doubleBackslash [b] @ doubleBackslash (tl (take w (b # bs)))"
      by (subst tk) (simp add: doubleBackslash_def)
    also have "doubleBackslash (tl (take w (b # bs))) = tl (take w (b # bs))"
      using a by (simp add: doubleBackslash_id)
    also have "doubleBackslash [b] = (if b = bslash then [bslash] else []) @ [b]"
      by (simp add: doubleBackslash_def)
    finally show ?thesis using tk by simp
  qed
  moreover have "doubleBackslash (b # bs) =
      doubleBackslash (take w (b # bs)) @ doubleBackslash (drop w (b # bs))"
    by (simp only: doubleBackslash_append [symmetric] append_take_drop_id)
  moreover have "escapeRunes (b # bs) =
      (if b = bslash then [bslash] else []) @ take w (b # bs) @ escapeRunes (drop w (b # bs))"
    using a d by simp
  ultimately show ?case using IH by simp
qed

lemma undouble_double: "undoubleBackslash (doubleBackslash s) = s"
proof (induction s)
  case Nil
  show ?case by (simp add: doubleBackslash_def)
next
  case (Cons c cs)
  have step: "doubleBackslash (c # cs) = (if c = bslash then [bslash, bslash] else [c]) @ doubleBackslash cs"
    by (simp add: doubleBackslash_def)
  show ?case
  proof (cases "c = bslash")
    case True
    with Cons step show ?thesis by simp
  next
    case False
    with Cons step show ?thesis by (cases "doubleBackslash cs") simp_all
  qed
qed

lemma csv_roundtrip_valid: "validString s \<Longrightarrow> undoubleBackslash (escapeString s) = s"
  by (auto simp: escapeString_def escapeRunes_valid undouble_double)

lemma strings_Replace_byte:
  "strings_Replace s [a] new = concat (map (\<lambda>c. if c = a then new else [c]) s)"
  by (induction s) auto

lemma quoteLiteral_bytes: "quoteLiteral s = [squote] @ concat (map escapeByte s) @ [squote]"
proof -
  have "concat (map (\<lambda>c. if c = squote then [bslash, squote] else [c])
          (concat (map (\<lambda>c. if c = bslash then [bslash, bslash] else [c]) s))) =
        concat (map escapeByte s)"
    by (induction s) (auto simp: escapeByte_def)
  then show ?thesis by (simp add: quoteLiteral_def strings_Replace_byte)
qed

lemma unescape_escape: "unescapeLiteral (concat (map escapeByte s)) = s"
proof (induction s)
  case Nil
  show ?case by simp
next
  case (Cons c cs)
  define rest where "rest = concat (map escapeByte cs)"
  have IH: "unescapeLiteral rest = cs" using Cons by (simp add: rest_def)
  have step: "concat (map escapeByte (c # cs)) = escapeByte c @ rest" by (simp add: rest_def)
  show ?case
  proof (cases "c = bslash \<or> c = squote")
    case True
    then show ?thesis unfolding step using IH by (auto simp: escapeByte_def)
  next
    case False
    then have "escapeByte c = [c]" by (simp add: escapeByte_def)
    then show ?thesis unfolding step using IH False by (cases rest) simp_all
  qed
qed

lemma quoteLiteral_roundtrip: "decodeLiteral (quoteLiteral raw) = Some raw"
  by (simp add: decodeLiteral_def stripQuotes_def quoteLiteral_bytes unescape_escape)


subsection \<open>The float literal and the panic of convertValue\<close>

lemma lower_float: "strings_ToLower ''float'' = ''float''" "strings_ToLower ''FLOAT'' = ''float''"
  by (simp_all add: strings_ToLower_def lowerByte_def char_of_nat_eq)

lemma convertValue_float:
  "strings_ToLower typ = ''float'' \<Longrightarrow> convertValue (Some ret) typ = floatLiteral ret"
  by (simp add: convertValue_def)

text \<open>
  Away from the two inputs that index past the end, the float rule is the one of the
  specification: unchanged behind a digit or \<open>-digit\<close>, quoted otherwise.
\<close>

lemma floatLiteral_rule:
  assumes "ret \<noteq> []" "ret \<noteq> ''-''"
  shows "floatLiteral ret =
    Inr (if isDigit (ret ! 0) \<or> (ret ! 0 = CHR ''-'' \<and> isDigit (ret ! 1)) then ret
         else [squote] @ ret @ [squote])"
proof (cases ret)
  case Nil
  with assms show ?thesis by simp
next
  case (Cons c0 rest)
  have nd: "\<not> isDigit CHR ''-''" by (simp add: isDigit_def)
  show ?thesis
  proof (cases rest)
    case Nil
    with Cons assms have "c0 \<noteq> CHR ''-''" by simp
    with Cons Nil show ?thesis by (simp add: floatLiteral_def)
  next
    case (Cons c1 rest')
    with \<open>ret = c0 # rest\<close> nd show ?thesis by (auto simp: floatLiteral_def)
  qed
qed

text \<open>The only panics of \<open>convertValue\<close> are the two short float texts.\<close>

lemma convertValue_panics_iff:
  "(\<exists>e. convertValue v typ = Inl e) \<longleftrightarrow>
   (strings_ToLower typ = ''float'' \<and> (v = Some [] \<or> v = Some ''-''))"
proof (cases v)
  case None
  then show ?thesis by (simp add: convertValue_def)
next
  case (Some ret)
  show ?thesis
  proof (cases "strings_ToLower typ = ''float''")
    case True
    have "(\<exists>e. floatLiteral ret = Inl e) \<longleftrightarrow> (ret = [] \<or> ret = ''-'')"
      by (auto simp: floatLiteral_def isDigit_def split: list.splits)
    with True Some show ?thesis by (simp add: convertValue_float)
  next
    case False
    with Some show ?thesis by (simp add: convertValue_def Let_def)
  qed
qed

text \<open>
  C10. The claim: \<open>convertValue\<close> returns a literal for every non-NULL value and every
  type tag, also for an empty value of type float. On the code the empty float value
  reads \<open>retStr[0]\<close> of a string of length 0: the call panics with an index out of
  range and returns nothing.
\<close>

theorem convertValue_empty_float_panics:
  "convertValue (Some []) ''float'' = Inl (IndexOutOfRange 0 0)"
  by (simp add: convertValue_float lower_float floatLiteral_def)

text \<open>
  C7. The claim: a non-NULL float text that does not start with a digit or \<open>-digit\<close>
  is returned in single quotes. On the code the one-byte text \<open>-\<close> passes
  \<open>retStr[0] == '-'\<close> and then reads \<open>retStr[1]\<close> of a string of length 1: the call
  panics instead of returning the quoted text.
\<close>

theorem convertValue_minus_float_panics:
  "convertValue (Some ''-'') ''FLOAT'' = Inl (IndexOutOfRange 1 1) \<and>
   convertValue (Some ''-'') ''FLOAT'' \<noteq> Inr ([squote] @ ''-'' @ [squote])"
  by (simp add: convertValue_float lower_float floatLiteral_def isDigit_def)

subsection \<open>The NULL sentinel and the bytes of a CSV field\<close>

text \<open>
  C8. Escaping the NULL sentinel \<open>\N\<close> is a no-op: \<open>escapeString\<close> returns it
  unchanged, so escaping it again changes nothing.
\<close>

theorem escapeString_null_sentinel:
  "escapeString [bslash, CHR ''N''] = [bslash, CHR ''N''] \<and>
   escapeString (escapeString [bslash, CHR ''N'']) = escapeString [bslash, CHR ''N'']"
  by (simp add: escapeString_def)

text \<open>
  C4. The claim: undoing the backslash-doubling of the CSV field that \<open>escapeString\<close>
  produces gives back the raw bytes, for every byte string. \<open>escapeString\<close> ranges
  over runes: the byte \<open>0xFF\<close>, which is no UTF-8, is read as \<open>RuneError\<close> and written
  as the three bytes \<open>EF BF BD\<close>, so the field no longer holds the raw byte. The SQL
  literal (\<open>quoteLiteral_roundtrip\<close>) and the CSV field of a well-formed UTF-8 text
  (\<open>csv_roundtrip_valid\<close>) do round-trip.
\<close>

theorem escapeString_invalid_utf8:
  "escapeString [CHR 0xFF] = [CHR 0xEF, CHR 0xBF, CHR 0xBD] \<and>
   undoubleBackslash (escapeString [CHR 0xFF]) \<noteq> [CHR 0xFF]"
  by (simp add: escapeString_def decodeRune.simps seqLen_def appendRune.simps RuneError_def
      char_of_nat_eq)


subsection \<open>The scan of dumpData\<close>


lemma scanLeft_ge: "left \<le> scanLeft tables left"
  by (induction tables left rule: scanLeft.induct) (subst scanLeft.simps, auto)

lemma scanRight_le: "scanRight tables right \<le> right"
  by (induction tables right rule: scanRight.induct) (subst scanRight.simps, auto)

lemma scanLeft_stop:
  "scanLeft tables left < length tables \<Longrightarrow> Kind (tables ! scanLeft tables left) = SystemViewRel"
  by (induction tables left rule: scanLeft.induct) (subst (asm) (2) scanLeft.simps, subst scanLeft.simps, auto split: if_splits)


lemma scanLeft_skipped:
  "left \<le> i \<Longrightarrow> i < scanLeft tables left \<Longrightarrow> Kind (tables ! i) \<noteq> SystemViewRel"
proof (induction tables left rule: scanLeft.induct)
  case (1 tables left)
  show ?case
  proof (cases "left < length tables \<and> Kind (tables ! left) \<noteq> SystemViewRel")
    case True
    then have eq: "scanLeft tables left = scanLeft tables (left + 1)"
      by (subst scanLeft.simps) simp
    show ?thesis
    proof (cases "i = left")
      case True
      with \<open>left < length tables \<and> Kind (tables ! left) \<noteq> SystemViewRel\<close> show ?thesis by simp
    next
      case False
      with "1.prems" have "left + 1 \<le> i" by simp
      from "1.IH" [OF True this] "1.prems"(2) eq show ?thesis by simp
    qed
  next
    case False
    then have "scanLeft tables left = left" by (subst scanLeft.simps) auto
    with "1.prems" show ?thesis by simp
  qed
qed

lemma scanLeft_le_length: "left \<le> length tables \<Longrightarrow> scanLeft tables left \<le> length tables"
  by (induction tables left rule: scanLeft.induct) (subst scanLeft.simps, auto)

lemma scanRight_skipped:
  "scanRight tables right < i \<Longrightarrow> i \<le> right \<Longrightarrow> Kind (tables ! nat i) = SystemViewRel"
proof (induction tables right rule: scanRight.induct)
  case (1 tables right)
  show ?case
  proof (cases "right \<ge> 0 \<and> Kind (tables ! nat right) = SystemViewRel")
    case True
    then have eq: "scanRight tables right = scanRight tables (right - 1)"
      by (subst scanRight.simps) simp
    show ?thesis
    proof (cases "i = right")
      case True
      with \<open>right \<ge> 0 \<and> Kind (tables ! nat right) = SystemViewRel\<close> show ?thesis by simp
    next
      case False
      with "1.prems" have "i \<le> right - 1" by simp
      from "1.IH" [OF True _ this] "1.prems"(1) eq show ?thesis by simp
    qed
  next
    case False
    then have "scanRight tables right = right" by (subst scanRight.simps) auto
    with "1.prems" show ?thesis by simp
  qed
qed

lemma scanRight_stop:
  "0 \<le> scanRight tables right \<Longrightarrow> Kind (tables ! nat (scanRight tables right)) \<noteq> SystemViewRel"
proof (induction tables right rule: scanRight.induct)
  case (1 tables right)
  show ?case
  proof (cases "right \<ge> 0 \<and> Kind (tables ! nat right) = SystemViewRel")
    case True
    then have eq: "scanRight tables right = scanRight tables (right - 1)"
      by (subst scanRight.simps) simp
    from "1.IH" [OF True] "1.prems" show ?thesis unfolding eq by simp
  next
    case False
    then have "scanRight tables right = right" by (subst scanRight.simps) auto
    with False "1.prems" show ?thesis by simp
  qed
qed

lemma scanRight_ge: "-1 \<le> right \<Longrightarrow> -1 \<le> scanRight tables right"
  by (induction tables right rule: scanRight.induct) (subst scanRight.simps, auto)

lemma length_swap [simp]: "length (swap i j xs) = length xs"
  by (simp add: swap_def)

lemma nth_swap_other: "k \<noteq> i \<Longrightarrow> k \<noteq> j \<Longrightarrow> swap i j xs ! k = xs ! k"
  by (simp add: swap_def)

lemma nth_swap_left: "i < length xs \<Longrightarrow> i \<noteq> j \<Longrightarrow> swap i j xs ! i = xs ! j"
  by (simp add: swap_def)

lemma zip_swap: "zip (swap i j xs) (swap i j ys) = swap i j (zip xs ys)"
  if "i < length xs" "j < length xs" "length xs = length ys"
  using that by (simp add: swap_def zip_update)

lemma mset_swap': "i < length xs \<Longrightarrow> j < length xs \<Longrightarrow> mset (swap i j xs) = mset xs"
  unfolding swap_def by (rule mset_swap)

lemma partitionLoop_sound:
  assumes "length ct = length tb" "int left < right" "right < int (length tb)"
    "\<forall>i<left. Kind (tb ! i) \<noteq> SystemViewRel"
    "\<forall>i. right < int i \<longrightarrow> i < length tb \<longrightarrow> Kind (tb ! i) = SystemViewRel"
  shows "\<exists>l ct' tb'. partitionLoop left right ct tb = Some (l, ct', tb') \<and>
    length ct' = length ct \<and> length tb' = length tb \<and>
    mset (zip tb' ct') = mset (zip tb ct) \<and> l \<le> length tb \<and>
    (\<forall>i<l. Kind (tb' ! i) \<noteq> SystemViewRel) \<and>
    (\<forall>i. l \<le> i \<longrightarrow> i < length tb \<longrightarrow> Kind (tb' ! i) = SystemViewRel) \<and>
    (\<forall>i<scanLeft tb left. tb' ! i = tb ! i \<and> ct' ! i = ct ! i)"
  using assms
proof (induction "2 * nat (right - int left) + (if Kind (tb ! left) = SystemViewRel then 1 else 0)"
    arbitrary: left right ct tb rule: less_induct)
  case less
  define l' where "l' = scanLeft tb left"
  define r' where "r' = scanRight tb right"
  note len = less.prems(1) and lr = less.prems(2) and rn = less.prems(3)
  note pre = less.prems(4) and suf = less.prems(5)
  have f1: "left \<le> l'" unfolding l'_def by (rule scanLeft_ge)
  have f2: "l' \<le> length tb" unfolding l'_def using lr rn by (intro scanLeft_le_length) simp
  have f4: "l' < length tb \<Longrightarrow> Kind (tb ! l') = SystemViewRel"
    unfolding l'_def by (rule scanLeft_stop)
  have g1: "r' \<le> right" unfolding r'_def by (rule scanRight_le)
  have g2: "-1 \<le> r'" unfolding r'_def using lr by (intro scanRight_ge) simp
  have g4: "0 \<le> r' \<Longrightarrow> Kind (tb ! nat r') \<noteq> SystemViewRel"
    unfolding r'_def by (rule scanRight_stop)
  have A: "Kind (tb ! i) \<noteq> SystemViewRel" if "i < l'" for i
  proof (cases "i < left")
    case True with pre show ?thesis by simp
  next
    case False
    with that show ?thesis unfolding l'_def by (intro scanLeft_skipped [of left]) simp_all
  qed
  have B: "Kind (tb ! i) = SystemViewRel" if "r' < int i" "i < length tb" for i
  proof (cases "right < int i")
    case True with suf that show ?thesis by simp
  next
    case False
    then have "int i \<le> right" by simp
    from scanRight_skipped [OF that(1) [unfolded r'_def] this] show ?thesis by simp
  qed
  have unf: "partitionLoop left right ct tb =
      (if int l' \<ge> r' then Some (l', ct, tb)
       else partitionLoop l' r' (swap l' (nat r') ct) (swap l' (nat r') tb))"
    using lr by (subst partitionLoop.simps) (simp add: Let_def l'_def r'_def)
  show ?case
  proof (cases "int l' \<ge> r'")
    case True
    have "Kind (tb ! i) = SystemViewRel" if "l' \<le> i" "i < length tb" for i
    proof (cases "r' < int i")
      case True with B that show ?thesis by simp
    next
      case False
      with \<open>int l' \<ge> r'\<close> that have "i = l'" by simp
      with f4 that show ?thesis by simp
    qed
    with True unf f2 A show ?thesis by (simp add: l'_def)
  next
    case False
    define j where "j = nat r'"
    have j: "l' < j" "j < length tb" "int j = r'" using False g1 rn f1 by (simp_all add: j_def)
    define tb2 where "tb2 = swap l' j tb"
    define ct2 where "ct2 = swap l' j ct"
    have l'n: "l' < length tb" using j by simp
    have tb2l: "tb2 ! l' = tb ! j" unfolding tb2_def using l'n j by (simp add: nth_swap_left)
    have nv: "Kind (tb2 ! l') \<noteq> SystemViewRel" using g4 j unfolding tb2l j_def by simp
    have p1: "length ct2 = length tb2" by (simp add: ct2_def tb2_def len)
    have p2: "int l' < r'" using False by simp
    have p3: "r' < int (length tb2)" using g1 rn by (simp add: tb2_def)
    have p4: "\<forall>i<l'. Kind (tb2 ! i) \<noteq> SystemViewRel"
      using A j by (simp add: tb2_def nth_swap_other)
    have p5: "\<forall>i. r' < int i \<longrightarrow> i < length tb2 \<longrightarrow> Kind (tb2 ! i) = SystemViewRel"
    proof (intro allI impI)
      fix i assume i: "r' < int i" "i < length tb2"
      then have "i \<noteq> l'" "i \<noteq> j" using j by auto
      then have "tb2 ! i = tb ! i" by (simp add: tb2_def nth_swap_other)
      with B i show "Kind (tb2 ! i) = SystemViewRel" by (simp add: tb2_def)
    qed
    have meas: "2 * nat (r' - int l') + (if Kind (tb2 ! l') = SystemViewRel then 1 else 0)
        < 2 * nat (right - int left) + (if Kind (tb ! left) = SystemViewRel then 1 else 0)"
    proof (cases "l' = left \<and> r' = right")
      case True
      with f4 l'n have "Kind (tb ! left) = SystemViewRel" by simp
      with True nv show ?thesis by simp
    next
      case False
      with f1 g1 p2 have "nat (r' - int l') < nat (right - int left)" by auto
      then have "2 * nat (r' - int l') + 0 < 2 * nat (right - int left) + 0"
        "2 * nat (r' - int l') + 0 < 2 * nat (right - int left) + 1" by linarith+
      then show ?thesis by (simp only: nv if_False split: if_split)
    qed
    from less.hyps [OF meas p1 p2 p3 p4 p5]
    obtain l ct' tb' where r: "partitionLoop l' r' ct2 tb2 = Some (l, ct', tb')"
      "length ct' = length ct2" "length tb' = length tb2"
      "mset (zip tb' ct') = mset (zip tb2 ct2)" "l \<le> length tb2"
      "\<forall>i<l. Kind (tb' ! i) \<noteq> SystemViewRel"
      "\<forall>i. l \<le> i \<longrightarrow> i < length tb2 \<longrightarrow> Kind (tb' ! i) = SystemViewRel"
      "\<forall>i<scanLeft tb2 l'. tb' ! i = tb2 ! i \<and> ct' ! i = ct2 ! i"
      by blast
    have "mset (zip tb2 ct2) = mset (zip tb ct)"
      unfolding tb2_def ct2_def using l'n j len
      by (simp add: zip_swap mset_swap')
    moreover have "tb' ! i = tb ! i \<and> ct' ! i = ct ! i" if "i < l'" for i
    proof -
      have "i < scanLeft tb2 l'" using that scanLeft_ge [of l' tb2] by simp
      with r(8) have "tb' ! i = tb2 ! i \<and> ct' ! i = ct2 ! i" by simp
      moreover have "i \<noteq> l'" "i \<noteq> j" using that j by auto
      ultimately show ?thesis by (simp add: tb2_def ct2_def nth_swap_other)
    qed
    ultimately show ?thesis
      using r False unf by (simp add: tb2_def ct2_def j_def l'_def [symmetric])
  qed
qed

lemma scanLeft_takeWhile:
  "left \<le> length tables \<Longrightarrow>
   scanLeft tables left =
     left + length (takeWhile (\<lambda>t. Kind t \<noteq> SystemViewRel) (drop left tables))"
proof (induction tables left rule: scanLeft.induct)
  case (1 tables left)
  show ?case
  proof (cases "left < length tables \<and> Kind (tables ! left) \<noteq> SystemViewRel")
    case True
    then have d: "drop left tables = tables ! left # drop (left + 1) tables"
      by (simp add: Cons_nth_drop_Suc)
    from True have "scanLeft tables left = scanLeft tables (left + 1)"
      by (subst scanLeft.simps) simp
    also have "\<dots> = left + 1 + length (takeWhile (\<lambda>t. Kind t \<noteq> SystemViewRel) (drop (left + 1) tables))"
      using "1.IH" [OF True] True by simp
    finally show ?thesis using True by (simp add: d)
  next
    case False
    then have e: "scanLeft tables left = left" by (subst scanLeft.simps) auto
    show ?thesis
    proof (cases "left < length tables")
      case True
      then have d: "drop left tables = tables ! left # drop (left + 1) tables"
        by (simp add: Cons_nth_drop_Suc)
      from True False show ?thesis by (simp add: e d)
    next
      case False
      with "1.prems" e show ?thesis by simp
    qed
  qed
qed

lemma partitionViews_sound:
  assumes len: "length ct = length tb"
  shows "\<exists>l ct' tb'. partitionViews ct tb = Some (l, ct', tb') \<and>
    length ct' = length ct \<and> length tb' = length tb \<and>
    mset (zip tb' ct') = mset (zip tb ct) \<and> l \<le> length tb \<and>
    (\<forall>i<l. Kind (tb' ! i) \<noteq> SystemViewRel) \<and>
    (2 \<le> length tb \<longrightarrow> (\<forall>i. l \<le> i \<longrightarrow> i < length tb \<longrightarrow> Kind (tb' ! i) = SystemViewRel)) \<and>
    (length tb \<le> 1 \<longrightarrow> l = 0 \<and> ct' = ct \<and> tb' = tb) \<and>
    (\<forall>i<scanLeft tb 0. tb' ! i = tb ! i \<and> ct' ! i = ct ! i)"
proof (cases "2 \<le> length tb")
  case True
  have "\<exists>l ct' tb'. partitionLoop 0 (int (length tb) - 1) ct tb = Some (l, ct', tb') \<and>
    length ct' = length ct \<and> length tb' = length tb \<and>
    mset (zip tb' ct') = mset (zip tb ct) \<and> l \<le> length tb \<and>
    (\<forall>i<l. Kind (tb' ! i) \<noteq> SystemViewRel) \<and>
    (\<forall>i. l \<le> i \<longrightarrow> i < length tb \<longrightarrow> Kind (tb' ! i) = SystemViewRel) \<and>
    (\<forall>i<scanLeft tb 0. tb' ! i = tb ! i \<and> ct' ! i = ct ! i)"
    using True by (intro partitionLoop_sound [OF len]) auto
  with True show ?thesis by (simp add: partitionViews_def len)
next
  case False
  then have "partitionLoop 0 (int (length tb) - 1) ct tb = Some (0, ct, tb)"
    by (subst partitionLoop.simps) simp
  with False show ?thesis by (simp add: partitionViews_def len)
qed


text \<open>
  C6 as claimed: the scan keeps the relative order of the non-view entries. It does not:
  with a view in front of two tables, the scan swaps the view with the last table, and
  the two tables come out in reverse order.
\<close>

theorem partitionViews_not_stable:
  "partitionViews [''cv'', ''c1'', ''c2'']
     [\<lparr>Name = ''v'', Kind = SystemViewRel\<rparr>, \<lparr>Name = ''t1'', Kind = SystemOrdinaryRel\<rparr>,
      \<lparr>Name = ''t2'', Kind = SystemOrdinaryRel\<rparr>] =
   Some (2, [''c2'', ''c1'', ''cv''],
     [\<lparr>Name = ''t2'', Kind = SystemOrdinaryRel\<rparr>, \<lparr>Name = ''t1'', Kind = SystemOrdinaryRel\<rparr>,
      \<lparr>Name = ''v'', Kind = SystemViewRel\<rparr>]) \<and>
   filter (\<lambda>t. Kind t \<noteq> SystemViewRel)
     [\<lparr>Name = ''t2'', Kind = SystemOrdinaryRel\<rparr>, \<lparr>Name = ''t1'', Kind = SystemOrdinaryRel\<rparr>,
      \<lparr>Name = ''v'', Kind = SystemViewRel\<rparr>] \<noteq>
   filter (\<lambda>t. Kind t \<noteq> SystemViewRel)
     [\<lparr>Name = ''v'', Kind = SystemViewRel\<rparr>, \<lparr>Name = ''t1'', Kind = SystemOrdinaryRel\<rparr>,
      \<lparr>Name = ''t2'', Kind = SystemOrdinaryRel\<rparr>]"
  by (simp add: partitionViews_def partitionLoop.simps scanLeft.simps scanRight.simps swap_def)

text \<open>
  C6, amended. The scan returns a permutation of the entries (each table still with its
  statement) in which every non-view entry stands before every view entry, and the
  non-view entries in front of the first view of the input keep their places.
\<close>

theorem partitionViews_partitions:
  assumes "length createTable = length tables"
  shows "\<exists>left createTable' tables'.
    partitionViews createTable tables = Some (left, createTable', tables') \<and>
    mset (zip tables' createTable') = mset (zip tables createTable) \<and>
    length createTable' = length tables' \<and>
    (\<forall>i j. i < length tables' \<and> j < length tables' \<and>
       Kind (tables' ! i) \<noteq> SystemViewRel \<and> Kind (tables' ! j) = SystemViewRel \<longrightarrow> i < j) \<and>
    (\<forall>i < length (takeWhile (\<lambda>t. Kind t \<noteq> SystemViewRel) tables).
       tables' ! i = tables ! i \<and> createTable' ! i = createTable ! i)"
proof -
  from partitionViews_sound [OF assms]
  obtain l ct' tb' where r: "partitionViews createTable tables = Some (l, ct', tb')"
    "length ct' = length createTable" "length tb' = length tables"
    "mset (zip tb' ct') = mset (zip tables createTable)" "l \<le> length tables"
    "\<forall>i<l. Kind (tb' ! i) \<noteq> SystemViewRel"
    "2 \<le> length tables \<longrightarrow>
       (\<forall>i. l \<le> i \<longrightarrow> i < length tables \<longrightarrow> Kind (tb' ! i) = SystemViewRel)"
    "length tables \<le> 1 \<longrightarrow> l = 0 \<and> ct' = createTable \<and> tb' = tables"
    "\<forall>i<scanLeft tables 0. tb' ! i = tables ! i \<and> ct' ! i = createTable ! i"
    by blast
  have ord: "i < j" if "i < length tb'" "j < length tb'"
    "Kind (tb' ! i) \<noteq> SystemViewRel" "Kind (tb' ! j) = SystemViewRel" for i j
  proof (cases "2 \<le> length tables")
    case True
    with r(7) that r(3) have "\<not> l \<le> i" by auto
    moreover from r(6) that have "\<not> j < l" by auto
    ultimately show ?thesis by simp
  next
    case False
    with that r(3) have "i = 0" "j = 0" by simp_all
    with that show ?thesis by simp
  qed
  have sl: "scanLeft tables 0 = length (takeWhile (\<lambda>t. Kind t \<noteq> SystemViewRel) tables)"
    using scanLeft_takeWhile [of 0 tables] by simp
  show ?thesis
  proof (intro exI conjI)
    show "partitionViews createTable tables = Some (l, ct', tb')" by (rule r(1))
    show "mset (zip tb' ct') = mset (zip tables createTable)" by (rule r(4))
    show "length ct' = length tb'" using r(2,3) assms by simp
    show "\<forall>i j. i < length tb' \<and> j < length tb' \<and>
       Kind (tb' ! i) \<noteq> SystemViewRel \<and> Kind (tb' ! j) = SystemViewRel \<longrightarrow> i < j"
      using ord by blast
    show "\<forall>i < length (takeWhile (\<lambda>t. Kind t \<noteq> SystemViewRel) tables).
       tb' ! i = tables ! i \<and> ct' ! i = createTable ! i"
      using r(9) unfolding sl by blast
  qed
qed

theorem partitionViews_partitions_witness:
  "length [''cv'', ''c1'', ''c2''] =
     length [\<lparr>Name = ''v'', Kind = SystemViewRel\<rparr>, \<lparr>Name = ''t1'', Kind = SystemOrdinaryRel\<rparr>,
       \<lparr>Name = ''t2'', Kind = SystemOrdinaryRel\<rparr>] \<and>
   (\<exists>left createTable' tables'.
    partitionViews [''cv'', ''c1'', ''c2'']
      [\<lparr>Name = ''v'', Kind = SystemViewRel\<rparr>, \<lparr>Name = ''t1'', Kind = SystemOrdinaryRel\<rparr>,
       \<lparr>Name = ''t2'', Kind = SystemOrdinaryRel\<rparr>] = Some (left, createTable', tables') \<and>
    mset (zip tables' createTable') =
      mset (zip [\<lparr>Name = ''v'', Kind = SystemViewRel\<rparr>, \<lparr>Name = ''t1'', Kind = SystemOrdinaryRel\<rparr>,
        \<lparr>Name = ''t2'', Kind = SystemOrdinaryRel\<rparr>] [''cv'', ''c1'', ''c2'']) \<and>
    length createTable' = length tables' \<and>
    (\<forall>i j. i < length tables' \<and> j < length tables' \<and>
       Kind (tables' ! i) \<noteq> SystemViewRel \<and> Kind (tables' ! j) = SystemViewRel \<longrightarrow> i < j) \<and>
    (\<forall>i < length (takeWhile (\<lambda>t. Kind t \<noteq> SystemViewRel)
         [\<lparr>Name = ''v'', Kind = SystemViewRel\<rparr>, \<lparr>Name = ''t1'', Kind = SystemOrdinaryRel\<rparr>,
          \<lparr>Name = ''t2'', Kind = SystemOrdinaryRel\<rparr>]).
       tables' ! i =
         [\<lparr>Name = ''v'', Kind = SystemViewRel\<rparr>, \<lparr>Name = ''t1'', Kind = SystemOrdinaryRel\<rparr>,
          \<lparr>Name = ''t2'', Kind = SystemOrdinaryRel\<rparr>] ! i \<and>
       createTable' ! i = [''cv'', ''c1'', ''c2''] ! i))"
proof -
  have len: "length [''cv'', ''c1'', ''c2''] =
     length [\<lparr>Name = ''v'', Kind = SystemViewRel\<rparr>, \<lparr>Name = ''t1'', Kind = SystemOrdinaryRel\<rparr>,
       \<lparr>Name = ''t2'', Kind = SystemOrdinaryRel\<rparr>]"
    by simp
  from len partitionViews_partitions [OF len] show ?thesis ..
qed


subsection \<open>The reference graph that adjustViewOrder builds\<close>


definition refEdge :: "string list \<Rightarrow> Tables \<Rightarrow> nat \<Rightarrow> nat \<Rightarrow> nat \<Rightarrow> bool" where
  "refEdge createTable tables start j i =
     (i < length tables - start \<and> j < length tables - start \<and> i \<noteq> j \<and>
      contains (createTable ! (start + i)) (Name (tables ! (start + j))))"

definition refsInv ::
  "string list \<Rightarrow> Tables \<Rightarrow> nat \<Rightarrow> (nat \<times> nat) set \<Rightarrow> int list \<times> nat list list \<Rightarrow> bool" where
  "refsInv ct tb start S g =
     (case g of (vc, vr) \<Rightarrow>
        length vc = length tb - start \<and> length vr = length tb - start \<and>
        (\<forall>p < length tb - start. vc ! p = int (card {q. (p, q) \<in> S \<and> refEdge ct tb start q p})) \<and>
        (\<forall>q < length tb - start.
           distinct (vr ! q) \<and> set (vr ! q) = {p. (p, q) \<in> S \<and> refEdge ct tb start q p}))"

lemma finite_refEdge_to: "finite {q. P q \<and> refEdge ct tb start q p}"
  by (rule finite_subset [of _ "{..<length tb - start}"]) (auto simp: refEdge_def)

lemma viewPosOf_fold:
  assumes "distinct (map Name (drop start tb))"
  shows "start \<le> k \<Longrightarrow> k \<le> length tb \<Longrightarrow> start \<le> i \<Longrightarrow> i < k \<Longrightarrow>
    fold (\<lambda>i m. m(Name (tb ! i) \<mapsto> i - start)) [start..<k] Map.empty (Name (tb ! i)) = Some (i - start)"
proof (induction k arbitrary: i)
  case 0
  then show ?case by simp
next
  case (Suc k)
  from Suc.prems have sk: "start \<le> k" by simp
  have up: "[start..<Suc k] = [start..<k] @ [k]" using sk by simp
  show ?case
  proof (cases "i = k")
    case True
    then show ?thesis using sk by (simp add: up)
  next
    case False
    with Suc.prems have ik: "i < k" by simp
    have li: "i - start < length (map Name (drop start tb))"
      "k - start < length (map Name (drop start tb))"
      using Suc.prems ik by simp_all
    have "i - start \<noteq> k - start" using Suc.prems ik by simp
    with nth_eq_iff_index_eq [OF assms li]
    have "map Name (drop start tb) ! (i - start) \<noteq> map Name (drop start tb) ! (k - start)"
      by simp
    then have ne: "Name (tb ! i) \<noteq> Name (tb ! k)" using Suc.prems ik by simp
    from Suc.IH [OF sk _ Suc.prems(3) ik] Suc.prems(2) ne sk show ?thesis by (simp add: up)
  qed
qed

lemma viewPosOf_nth:
  assumes "distinct (map Name (drop start tb))" "i < length tb - start"
  shows "lookupPos (viewPosOf tb start) (Name (tb ! (start + i))) = i"
proof -
  have "start \<le> length tb" using assms(2) by simp
  from viewPosOf_fold [OF assms(1) this order_refl, of "start + i"] assms(2)
  show ?thesis by (simp add: viewPosOf_def lookupPos_def)
qed

lemma refStep_inv:
  assumes inv: "refsInv ct tb start S g" and p: "p < length tb - start" and q: "q < length tb - start"
    and new: "(p, q) \<notin> S"
    and lp: "lookupPos vp (Name (tb ! (start + p))) = p"
    and lq: "lookupPos vp (Name (tb ! (start + q))) = q"
  shows "refsInv ct tb start (insert (p, q) S) (refStep ct tb vp (start + p) (start + q) g)"
proof -
  obtain vc vr where g: "g = (vc, vr)" by (cases g)
  let ?n = "length tb - start"
  from inv g have lv: "length vc = ?n" "length vr = ?n"
    and cnt: "\<And>p. p < ?n \<Longrightarrow> vc ! p = int (card {q. (p, q) \<in> S \<and> refEdge ct tb start q p})"
    and rf: "\<And>q. q < ?n \<Longrightarrow> distinct (vr ! q) \<and> set (vr ! q) = {p. (p, q) \<in> S \<and> refEdge ct tb start q p}"
    by (simp_all add: refsInv_def)
  show ?thesis
  proof (cases "refEdge ct tb start q p")
    case False
    then have same: "refStep ct tb vp (start + p) (start + q) g = g"
      using p q by (auto simp: refStep_def refEdge_def g)
    have "{q'. (p', q') \<in> insert (p, q) S \<and> refEdge ct tb start q' p'} =
          {q'. (p', q') \<in> S \<and> refEdge ct tb start q' p'}" for p'
      using False by auto
    moreover have "{p'. (p', q') \<in> insert (p, q) S \<and> refEdge ct tb start q' p'} =
          {p'. (p', q') \<in> S \<and> refEdge ct tb start q' p'}" for q'
      using False by auto
    ultimately show ?thesis using inv unfolding same by (simp add: refsInv_def g)
  next
    case True
    then have pq: "p \<noteq> q" and c: "contains (ct ! (start + p)) (Name (tb ! (start + q)))"
      by (simp_all add: refEdge_def)
    have step: "refStep ct tb vp (start + p) (start + q) g =
        (vc[p := vc ! p + 1], vr[q := vr ! q @ [p]])"
      using pq c lp lq by (simp add: refStep_def g Let_def)
    have c1: "(vc[p := vc ! p + 1]) ! p' =
        int (card {q'. (p', q') \<in> insert (p, q) S \<and> refEdge ct tb start q' p'})"
      if p': "p' < ?n" for p'
    proof (cases "p' = p")
      case True
      have "{q'. (p, q') \<in> insert (p, q) S \<and> refEdge ct tb start q' p} =
            insert q {q'. (p, q') \<in> S \<and> refEdge ct tb start q' p}"
        using \<open>refEdge ct tb start q p\<close> by auto
      moreover have "q \<notin> {q'. (p, q') \<in> S \<and> refEdge ct tb start q' p}" using new by simp
      ultimately have "card {q'. (p, q') \<in> insert (p, q) S \<and> refEdge ct tb start q' p} =
          Suc (card {q'. (p, q') \<in> S \<and> refEdge ct tb start q' p})"
        by (simp add: finite_refEdge_to)
      with True cnt [OF p] p lv show ?thesis by simp
    next
      case False
      then have "{q'. (p', q') \<in> insert (p, q) S \<and> refEdge ct tb start q' p'} =
            {q'. (p', q') \<in> S \<and> refEdge ct tb start q' p'}" by auto
      with False cnt [OF p'] show ?thesis by simp
    qed
    have c2: "distinct ((vr[q := vr ! q @ [p]]) ! q') \<and>
        set ((vr[q := vr ! q @ [p]]) ! q') = {p'. (p', q') \<in> insert (p, q) S \<and> refEdge ct tb start q' p'}"
      if q': "q' < ?n" for q'
    proof (cases "q' = q")
      case True
      have "p \<notin> set (vr ! q)" using rf [OF q] new by simp
      moreover have "{p'. (p', q) \<in> insert (p, q) S \<and> refEdge ct tb start q p'} =
          insert p {p'. (p', q) \<in> S \<and> refEdge ct tb start q p'}"
        using \<open>refEdge ct tb start q p\<close> by auto
      ultimately show ?thesis using True rf [OF q] q lv by simp
    next
      case False
      then have "{p'. (p', q') \<in> insert (p, q) S \<and> refEdge ct tb start q' p'} =
            {p'. (p', q') \<in> S \<and> refEdge ct tb start q' p'}" by auto
      with False rf [OF q'] show ?thesis by simp
    qed
    show ?thesis unfolding step using c1 c2 lv by (simp add: refsInv_def)
  qed
qed

lemma upt_shift: "start \<le> cnt \<Longrightarrow> [start..<cnt] = map ((+) start) [0..<cnt - start]"
proof -
  have "(+) start = (\<lambda>i. i + start)" by (auto simp: fun_eq_iff)
  moreover assume "start \<le> cnt"
  ultimately show ?thesis using map_add_upt [of start "cnt - start"] by simp
qed

lemma refs_inner_fold:
  assumes d: "distinct (map Name (drop start tb))" and p: "p < length tb - start"
  shows "refsInv ct tb start S g \<Longrightarrow> distinct qs \<Longrightarrow>
    \<forall>q\<in>set qs. q < length tb - start \<and> (p, q) \<notin> S \<Longrightarrow>
    refsInv ct tb start (S \<union> {p} \<times> set qs)
      (fold (\<lambda>j g'. refStep ct tb (viewPosOf tb start) (start + p) j g') (map ((+) start) qs) g)"
proof (induction qs arbitrary: S g)
  case Nil
  then show ?case by simp
next
  case (Cons q qs)
  from Cons.prems have q: "q < length tb - start" "(p, q) \<notin> S" by simp_all
  have 1: "refsInv ct tb start (insert (p, q) S)
      (refStep ct tb (viewPosOf tb start) (start + p) (start + q) g)"
    by (rule refStep_inv [OF Cons.prems(1) p q viewPosOf_nth [OF d p] viewPosOf_nth [OF d q(1)]])
  have 2: "\<forall>q'\<in>set qs. q' < length tb - start \<and> (p, q') \<notin> insert (p, q) S"
    using Cons.prems by auto
  have 3: "distinct qs" using Cons.prems by simp
  have "insert (p, q) S \<union> {p} \<times> set qs = S \<union> {p} \<times> set (q # qs)" by auto
  with Cons.IH [OF 1 3 2] show ?case by simp
qed

lemma refs_outer_fold:
  assumes d: "distinct (map Name (drop start tb))" and sc: "start \<le> length tb"
  shows "refsInv ct tb start S g \<Longrightarrow> distinct ps \<Longrightarrow>
    \<forall>p\<in>set ps. p < length tb - start \<and> (\<forall>q. (p, q) \<notin> S) \<Longrightarrow>
    refsInv ct tb start (S \<union> set ps \<times> {..<length tb - start})
      (fold (\<lambda>i g. fold (\<lambda>j g'. refStep ct tb (viewPosOf tb start) i j g') [start..<length tb] g)
         (map ((+) start) ps) g)"
proof (induction ps arbitrary: S g)
  case Nil
  then show ?case by simp
next
  case (Cons p ps)
  let ?n = "length tb - start"
  from Cons.prems have p: "p < ?n" "\<forall>q. (p, q) \<notin> S" by simp_all
  have "refsInv ct tb start (S \<union> {p} \<times> set [0..<?n])
      (fold (\<lambda>j g'. refStep ct tb (viewPosOf tb start) (start + p) j g') (map ((+) start) [0..<?n]) g)"
    using p by (intro refs_inner_fold [OF d p(1) Cons.prems(1)]) auto
  then have 1: "refsInv ct tb start (S \<union> {p} \<times> {..<?n})
      (fold (\<lambda>j g'. refStep ct tb (viewPosOf tb start) (start + p) j g') [start..<length tb] g)"
    by (simp add: upt_shift [OF sc] atLeast0LessThan)
  have 2: "\<forall>p'\<in>set ps. p' < ?n \<and> (\<forall>q. (p', q) \<notin> S \<union> {p} \<times> {..<?n})"
    using Cons.prems by auto
  have 3: "distinct ps" using Cons.prems by simp
  have "S \<union> {p} \<times> {..<?n} \<union> set ps \<times> {..<?n} = S \<union> set (p # ps) \<times> {..<?n}" by auto
  with Cons.IH [OF 1 3 2] show ?case by simp
qed

lemma buildRefs_spec:
  assumes d: "distinct (map Name (drop start tb))" and sc: "start \<le> length tb"
    and b: "buildRefs ct tb start = (vc, vr)"
  shows "length vc = length tb - start" "length vr = length tb - start"
    "\<forall>p < length tb - start. vc ! p = int (card {q. refEdge ct tb start q p})"
    "\<forall>q < length tb - start. distinct (vr ! q) \<and> set (vr ! q) = {p. refEdge ct tb start q p}"
proof -
  let ?n = "length tb - start"
  have 0: "refsInv ct tb start {} (replicate ?n 0, replicate ?n [])"
    by (simp add: refsInv_def)
  have "refsInv ct tb start ({} \<union> set [0..<?n] \<times> {..<?n})
      (fold (\<lambda>i g. fold (\<lambda>j g'. refStep ct tb (viewPosOf tb start) i j g') [start..<length tb] g)
         (map ((+) start) [0..<?n]) (replicate ?n 0, replicate ?n []))"
    by (intro refs_outer_fold [OF d sc 0]) auto
  then have inv: "refsInv ct tb start ({..<?n} \<times> {..<?n}) (vc, vr)"
    using b by (simp add: buildRefs_def Let_def upt_shift [OF sc, symmetric] atLeast0LessThan)
  have "{q. q < ?n \<and> refEdge ct tb start q p} = {q. refEdge ct tb start q p}" for p
    by (auto simp: refEdge_def)
  moreover have "{p. p < ?n \<and> refEdge ct tb start q p} = {p. refEdge ct tb start q p}" for q
    by (auto simp: refEdge_def)
  ultimately show "length vc = ?n" "length vr = ?n"
    "\<forall>p < ?n. vc ! p = int (card {q. refEdge ct tb start q p})"
    "\<forall>q < ?n. distinct (vr ! q) \<and> set (vr ! q) = {p. refEdge ct tb start q p}"
    using inv by (simp_all add: refsInv_def)
qed



subsection \<open>A cycle of references: the ordering loop never ends\<close>

lemma orderLoop_Some_moves:
  assumes "orderLoop n viewRef st = Some y"
  shows "\<not> (scanPass n viewRef st = st \<and> order st < n)"
proof (rule orderLoop.raw_induct
    [where P = "\<lambda>n vr s y. \<not> (scanPass n vr s = s \<and> order s < n)", OF _ assms])
  fix loop :: "nat \<Rightarrow> nat list list \<Rightarrow> order_state \<Rightarrow> order_state option"
  fix n vr s y
  assume IH: "\<And>n vr s y. loop n vr s = Some y \<Longrightarrow> \<not> (scanPass n vr s = s \<and> order s < n)"
    and eq: "(if order s < n then loop n vr (scanPass n vr s) else Some s) = Some y"
  show "\<not> (scanPass n vr s = s \<and> order s < n)"
  proof
    assume a: "scanPass n vr s = s \<and> order s < n"
    with eq have "loop n vr s = Some y" by simp
    from IH [OF this] a show False by simp
  qed
qed

lemma orderLoop_stuck:
  assumes "scanPass n viewRef st = st" "order st < n"
  shows "orderLoop n viewRef st = None"
  using assms orderLoop_Some_moves [of n viewRef st] by (cases "orderLoop n viewRef st") auto

text \<open>
  C5. The claim: with two views that reference each other the ordering step still
  terminates and yields a partial order. On the code it does not return: view \<open>v\<close>
  selects from \<open>v1\<close>, and the text of \<open>v1\<close> contains the name \<open>v\<close>, so both
  counters stay at 1, no pass of the scan visits a view, \<open>order\<close> stays 0 and the loop
  \<open>for order < len(viewName)\<close> runs forever.
\<close>

theorem orderStatements_cycle_never_returns:
  "orderStatements [''create view v as select * from v1'', ''create view v1 as select 1'']
     [\<lparr>Name = ''v'', Kind = SystemViewRel\<rparr>, \<lparr>Name = ''v1'', Kind = SystemViewRel\<rparr>] = None"
proof -
  let ?ct = "[''create view v as select * from v1'', ''create view v1 as select 1'']"
  let ?tb = "[\<lparr>Name = ''v'', Kind = SystemViewRel\<rparr>, \<lparr>Name = ''v1'', Kind = SystemViewRel\<rparr>]"
  let ?st = "\<lparr>viewCount = [1, 1], visit = [False, False], order = 0, orderArr = []\<rparr>"
  have p: "partitionViews ?ct ?tb = Some (0, ?ct, ?tb)"
    by (simp add: partitionViews_def partitionLoop.simps scanLeft.simps scanRight.simps)
  have b: "buildRefs ?ct ?tb 0 = ([1, 1], [[1], [0]])"
    by (simp add: buildRefs_def viewPosOf_def refStep_def lookupPos_def Let_def upt_rec)
  have "scanPass (Suc (Suc 0)) [[Suc 0], [0]] ?st = ?st"
    by (simp add: scanPass_def visitStep_def upt_rec)
  then have "orderLoop (Suc (Suc 0)) [[Suc 0], [0]] ?st = None"
    by (rule orderLoop_stuck) simp
  then have "adjustViewOrder ?ct ?tb 0 = None"
    by (simp add: adjustViewOrder_def b)
  with p show ?thesis by (simp add: orderStatements_def)
qed

end
